theory Spec2Isabelle
  imports
    Main
    "HOL-Library.Char_ord"
    "HOL-Library.List_Lexorder"
    "HOL-Library.Product_Lexorder"
begin

section \<open>Store/link cleaning scripts: a shallow embedding\<close>

text \<open>
  The development follows the two scripts \<^verbatim>\<open>dedup_por_tienda.py\<close> and
  \<^verbatim>\<open>extraer_tienda_links.py\<close>. A Python \<^verbatim>\<open>str\<close> is a \<^typ>\<open>string\<close>: each
  \<^typ>\<open>char\<close> stands for one code point below 256, and the orders of
  \<^verbatim>\<open>Char_ord\<close>, \<^verbatim>\<open>List_Lexorder\<close> and \<^verbatim>\<open>Product_Lexorder\<close> are Python's
  comparison of code points, of strings and of tuples.
\<close>

subsection \<open>Cells and strings\<close>

text \<open>
  A spreadsheet cell as the libraries hand it over: nothing (\<^verbatim>\<open>NaN\<close> in pandas,
  \<^verbatim>\<open>None\<close> in openpyxl), a \<^verbatim>\<open>str\<close>, or another scalar (number, boolean, date), of
  which the scripts only use the truth value and the \<^verbatim>\<open>str()\<close> rendering.
\<close>

datatype cell = Missing | Text string | Scalar bool string

text \<open>\<^verbatim>\<open>Series.astype(str)\<close>: every element through \<^verbatim>\<open>str()\<close>; \<^verbatim>\<open>NaN\<close> reads \<^verbatim>\<open>nan\<close>.\<close>

fun astype_str :: "cell \<Rightarrow> string" where
  "astype_str Missing = ''nan''"
| "astype_str (Text s) = s"
| "astype_str (Scalar b r) = r"

text \<open>\<^verbatim>\<open>str.isspace\<close> on one code point below 256.\<close>

definition isspace :: "char \<Rightarrow> bool" where
  "isspace c = (c \<in> set [CHR 0x09, CHR 0x0A, CHR 0x0B, CHR 0x0C, CHR 0x0D,
                           CHR 0x1C, CHR 0x1D, CHR 0x1E, CHR 0x1F, CHR '' '',
                           CHR 0x85, CHR 0xA0])"

text \<open>\<^verbatim>\<open>str.strip()\<close> without argument: whitespace goes from both ends only.\<close>

definition strip :: "string \<Rightarrow> string" where
  "strip s = rev (dropWhile isspace (rev (dropWhile isspace s)))"

subsection \<open>The pandas operations the scripts call\<close>

text \<open>\<^verbatim>\<open>drop_duplicates\<close> (and \<^verbatim>\<open>Series.unique\<close>): the first occurrence of a row stays.\<close>

fun drop_duplicates :: "'a list \<Rightarrow> 'a list" where
  "drop_duplicates [] = []"
| "drop_duplicates (x # xs) = x # drop_duplicates (filter (\<lambda>y. y \<noteq> x) xs)"

text \<open>
  \<^verbatim>\<open>sort_values\<close> on all the columns of the frame, ascending. The key is the whole row,
  so equal keys are equal rows and every sorting algorithm returns the same list.
\<close>

definition sort_values :: "('a::linorder) list \<Rightarrow> 'a list" where
  "sort_values rows = sort rows"

subsection \<open>Unique pairs\<close>

text \<open>
  \<^verbatim>\<open>dedup_por_tienda.py\<close>, lines 46 to 50; \<^verbatim>\<open>df_unique\<close> of
  \<^verbatim>\<open>extraer_tienda_links.py\<close>, line 69, is the same expression.
  \<^verbatim>\<open>reset_index\<close> renumbers the rows and leaves their values as they are.
\<close>

definition pares_unicos :: "(string \<times> string) list \<Rightarrow> (string \<times> string) list" where
  "pares_unicos base = sort_values (drop_duplicates base)"

definition df_unique :: "(string \<times> string) list \<Rightarrow> (string \<times> string) list" where
  "df_unique df = sort_values (drop_duplicates df)"

subsection \<open>Cleaning of the store and link columns\<close>

text \<open>
  \<^verbatim>\<open>dedup_por_tienda.py\<close>, lines 36 to 43. \<^verbatim>\<open>base\<close> is the frame of the two chosen
  columns: one (tienda, link) pair of cells per row. \<^verbatim>\<open>dropna\<close> removes the rows with
  a missing cell in either column.
\<close>

definition dropna :: "(cell \<times> cell) list \<Rightarrow> (cell \<times> cell) list" where
  "dropna base = filter (\<lambda>(t, l). t \<noteq> Missing \<and> l \<noteq> Missing) base"

text \<open>
  Both columns through \<^verbatim>\<open>astype(str).str.strip()\<close>, then the rows with an empty link
  are dropped (line 43 tests the link column only).
\<close>

definition base_limpia :: "(cell \<times> cell) list \<Rightarrow> (string \<times> string) list" where
  "base_limpia base =
     filter (\<lambda>(t, l). l \<noteq> [])
       (map (\<lambda>(t, l). (strip (astype_str t), strip (astype_str l))) (dropna base))"

subsection \<open>Reading a URL out of a workbook cell\<close>

text \<open>
  \<^verbatim>\<open>extraer_tienda_links.py\<close>. An openpyxl cell has a value and maybe a hyperlink
  object, whose target is a \<^verbatim>\<open>str\<close> or \<^verbatim>\<open>None\<close>.
\<close>

datatype hyperlink = Hyperlink (target: "string option")

record celda =
  cvalue :: cell
  chyperlink :: "hyperlink option"

text \<open>Python's truth value and \<^verbatim>\<open>str()\<close> of a cell value.\<close>

fun truthy :: "cell \<Rightarrow> bool" where
  "truthy Missing = False"
| "truthy (Text s) = (s \<noteq> [])"
| "truthy (Scalar b r) = b"

fun str :: "cell \<Rightarrow> string" where
  "str Missing = ''None''"
| "str (Text s) = s"
| "str (Scalar b r) = r"

text \<open>\<^verbatim>\<open>not url\<close> for a variable that holds \<^verbatim>\<open>None\<close> or a \<^verbatim>\<open>str\<close>.\<close>

definition not_url :: "string option \<Rightarrow> bool" where
  "not_url url = (url = None \<or> url = Some [])"

definition startswith :: "string \<Rightarrow> string \<Rightarrow> bool" where
  "startswith s p = (take (length p) s = p)"

text \<open>
  One literal letter of a pattern under \<^verbatim>\<open>re.IGNORECASE\<close>. The patterns of the scripts
  hold the letters h, t, p and s only; below code point 256 each matches itself and its
  capital, and every other pattern character matches itself.
\<close>

definition ci_char :: "char \<Rightarrow> char \<Rightarrow> bool" where
  "ci_char p c = (c = p \<or> (p, c) \<in> set [(CHR ''h'', CHR ''H''), (CHR ''t'', CHR ''T''),
                                          (CHR ''p'', CHR ''P''), (CHR ''s'', CHR ''S'')])"

text \<open>A literal pattern matched at the start of the subject: what follows the match.\<close>

fun literal_ci :: "string \<Rightarrow> string \<Rightarrow> string option" where
  "literal_ci [] s = Some s"
| "literal_ci (p # ps) [] = None"
| "literal_ci (p # ps) (c # cs) = (if ci_char p c then literal_ci ps cs else None)"

text \<open>
  \<^verbatim>\<open>https?://\<close> matched at the start of the subject. The optional s is greedy: the
  branch with it is tried first.
\<close>

definition http_prefix :: "string \<Rightarrow> string option" where
  "http_prefix s =
     (case literal_ci ''https://'' s of
        Some r \<Rightarrow> Some r
      | None \<Rightarrow> literal_ci ''http://'' s)"

definition dquote :: char where
  "dquote = CHR 0x22"

text \<open>
  The pattern of line 24, a double quote, \<^verbatim>\<open>https?://\<close>, one or more characters other
  than a double quote, a double quote, matched at the start of the subject; the result
  is group 1. The greedy run stops at the next double quote, which must be there.
\<close>

definition quoted_url_at :: "string \<Rightarrow> string option" where
  "quoted_url_at s =
     (case s of
        [] \<Rightarrow> None
      | q # r \<Rightarrow>
          if q \<noteq> dquote then None
          else (case http_prefix r of
                  None \<Rightarrow> None
                | Some body \<Rightarrow>
                    let run = takeWhile (\<lambda>c. c \<noteq> dquote) body;
                        rest = dropWhile (\<lambda>c. c \<noteq> dquote) body
                    in if run \<noteq> [] \<and> rest \<noteq> []
                       then Some (take (length r - length rest) r)
                       else None))"

text \<open>\<^verbatim>\<open>re.search\<close>: the leftmost position where the pattern matches.\<close>

fun extraer_url_de_formula :: "string \<Rightarrow> string option" where
  "extraer_url_de_formula [] = None"
| "extraer_url_de_formula (c # cs) =
     (case quoted_url_at (c # cs) of
        Some u \<Rightarrow> Some u
      | None \<Rightarrow> extraer_url_de_formula cs)"

definition URL_PREFIX :: string where
  "URL_PREFIX = ''https://services.traxretail.com/trax-one/sindicatedmx/explore/visit/''"

definition is_hex :: "char \<Rightarrow> bool" where
  "is_hex c = (c \<in> set ''0123456789abcdefABCDEF'')"

text \<open>
  \<^verbatim>\<open>GUID_RE.fullmatch\<close>: 36 characters, hexadecimal digits in groups of 8, 4, 4, 4 and
  12 with a hyphen between the groups.
\<close>

definition GUID_RE_fullmatch :: "string \<Rightarrow> bool" where
  "GUID_RE_fullmatch s =
     (length s = 36
      \<and> list_all is_hex (take 8 s) \<and> s ! 8 = CHR ''-''
      \<and> list_all is_hex (take 4 (drop 9 s)) \<and> s ! 13 = CHR ''-''
      \<and> list_all is_hex (take 4 (drop 14 s)) \<and> s ! 18 = CHR ''-''
      \<and> list_all is_hex (take 4 (drop 19 s)) \<and> s ! 23 = CHR ''-''
      \<and> list_all is_hex (drop 24 s))"

definition is_str :: "cell \<Rightarrow> bool" where
  "is_str v = (case v of Text s \<Rightarrow> True | _ \<Rightarrow> False)"

text \<open>
  Lines 44 to 55 of the loop body: the three attempts in order, each later one guarded
  by \<^verbatim>\<open>not url\<close>. The result is the \<^verbatim>\<open>url\<close> of line 57 (and \<^verbatim>\<open>url_detectada\<close> of
  the diagnostics).
\<close>

definition url_detectada :: "celda \<Rightarrow> string option" where
  "url_detectada c =
     (let url0 = (case chyperlink c of
                    Some (Hyperlink (Some t)) \<Rightarrow> if t \<noteq> [] then Some t else None
                  | _ \<Rightarrow> None);
          url1 = (if not_url url0 \<and> is_str (cvalue c)
                     \<and> (startswith (str (cvalue c)) ''=HIPERVINCULO(''
                        \<or> startswith (str (cvalue c)) ''=HYPERLINK('')
                  then extraer_url_de_formula (str (cvalue c)) else url0);
          url2 = (if not_url url1 \<and> is_str (cvalue c)
                     \<and> GUID_RE_fullmatch (strip (str (cvalue c)))
                  then Some (URL_PREFIX @ strip (str (cvalue c))) else url1)
      in url2)"

text \<open>
  Lines 57 and 58: what one row appends to \<^verbatim>\<open>pares\<close>. A row is the value of its store
  cell and its link cell.
\<close>

definition fila_pares :: "cell \<Rightarrow> celda \<Rightarrow> (string \<times> string) list" where
  "fila_pares tienda c =
     (case url_detectada c of
        None \<Rightarrow> []
      | Some url \<Rightarrow> if truthy tienda \<and> url \<noteq> [] then [(strip (str tienda), strip url)] else [])"

text \<open>The loop of lines 40 to 58 over the rows of the sheet.\<close>

fun pares :: "(cell \<times> celda) list \<Rightarrow> (string \<times> string) list" where
  "pares [] = []"
| "pares ((tienda, c) # rows) = fila_pares tienda c @ pares rows"

subsection \<open>Choice of the link column\<close>

text \<open>
  A data frame as its ordered columns, each a name and its values.
  \<^verbatim>\<open>pd.read_excel\<close> gives every column a name of its own.
\<close>

type_synonym dataframe = "(string \<times> cell list) list"

definition columns :: "dataframe \<Rightarrow> string list" where
  "columns df = map fst df"

text \<open>\<^verbatim>\<open>df[c]\<close> for a name taken from \<^verbatim>\<open>df.columns\<close>; the lookup cannot miss there.\<close>

definition getitem :: "dataframe \<Rightarrow> string \<Rightarrow> cell list" where
  "getitem df c = (case map_of df c of Some vs \<Rightarrow> vs | None \<Rightarrow> [])"

datatype error = ValueError

text \<open>\<^verbatim>\<open>url_re.search\<close> finds a match: \<^verbatim>\<open>https?://\<close> matches at some position.\<close>

fun contains_url :: "string \<Rightarrow> bool" where
  "contains_url [] = False"
| "contains_url (c # cs) = (http_prefix (c # cs) \<noteq> None \<or> contains_url cs)"

text \<open>\<^verbatim>\<open>s.str.contains(url_re).any()\<close> on the column read as text.\<close>

definition any_contains_url :: "cell list \<Rightarrow> bool" where
  "any_contains_url vs = list_ex (\<lambda>v. contains_url (astype_str v)) vs"

text \<open>
  An HTTP-like text: \<^verbatim>\<open>http://\<close> or \<^verbatim>\<open>https://\<close> up to the case of its letters.
\<close>

definition http_like :: "string \<Rightarrow> bool" where
  "http_like u = (list_all2 ci_char ''http://'' u \<or> list_all2 ci_char ''https://'' u)"

text \<open>The loop of lines 16 to 18 over the preferred names, in their order.\<close>

fun first_preferred :: "dataframe \<Rightarrow> string list \<Rightarrow> string option" where
  "first_preferred df [] = None"
| "first_preferred df (c # prefer) =
     (if c \<in> set (columns df) then Some c else first_preferred df prefer)"

text \<open>The loop of lines 20 to 23 over the column names, left to right.\<close>

fun first_url_column :: "dataframe \<Rightarrow> string list \<Rightarrow> string option" where
  "first_url_column df [] = None"
| "first_url_column df (c # cs) =
     (if any_contains_url (getitem df c) then Some c else first_url_column df cs)"

definition autodetect_link_column :: "dataframe \<Rightarrow> string list \<Rightarrow> error + string" where
  "autodetect_link_column df prefer =
     (case first_preferred df prefer of
        Some c \<Rightarrow> Inr c
      | None \<Rightarrow>
          (case first_url_column df (columns df) of
             Some c \<Rightarrow> Inr c
           | None \<Rightarrow> Inl ValueError))"

definition PREFER_COLS :: "string list" where
  "PREFER_COLS = [''id_visita (URL extra'' @ [CHR 0xED] @ ''da)'', ''link'', ''id_visita'']"

subsection \<open>The precedence of the URL sources\<close>

text \<open>
  The precedence of the extractor, stated on its own: first the real hyperlink target of
  the cell, when there is one and it is not empty.
\<close>

definition hyperlink_target :: "celda \<Rightarrow> string option" where
  "hyperlink_target c =
     (case chyperlink c of
        Some (Hyperlink (Some t)) \<Rightarrow> if t = [] then None else Some t
      | _ \<Rightarrow> None)"

text \<open>A cell text that starts like a hyperlink formula.\<close>

definition is_formula :: "string \<Rightarrow> bool" where
  "is_formula v = (startswith v ''=HIPERVINCULO('' \<or> startswith v ''=HYPERLINK('')"

text \<open>
  The URL of a cell by the fixed precedence: the hyperlink target; otherwise, for a
  formula, what the formula search finds; otherwise, for a GUID, the prefix and the
  stripped value; otherwise nothing.
\<close>

definition url_por_precedencia :: "celda \<Rightarrow> string option" where
  "url_por_precedencia c =
     (case hyperlink_target c of
        Some t \<Rightarrow> Some t
      | None \<Rightarrow>
          (case cvalue c of
             Text v \<Rightarrow>
               if is_formula v then extraer_url_de_formula v
               else if GUID_RE_fullmatch (strip v) then Some (URL_PREFIX @ strip v)
               else None
           | _ \<Rightarrow> None))"

text \<open>
  A quoted http(s) URL: an HTTP-like scheme and at least one more character, none of
  them a double quote.
\<close>

definition quoted_url :: "string \<Rightarrow> bool" where
  "quoted_url u = (\<exists>sch body. u = sch @ body \<and> http_like sch \<and> body \<noteq> [] \<and> dquote \<notin> set body)"

text \<open>Such a URL stands between double quotes right after the part \<open>pre\<close> of the text.\<close>

definition quoted_at :: "string \<Rightarrow> string \<Rightarrow> string \<Rightarrow> bool" where
  "quoted_at s pre u = (\<exists>post. s = pre @ dquote # u @ dquote # post \<and> quoted_url u)"

text \<open>The first quoted URL of a text: no quoted URL starts further left.\<close>

definition first_quoted_url :: "string \<Rightarrow> string \<Rightarrow> bool" where
  "first_quoted_url s u =
     (\<exists>pre. quoted_at s pre u \<and> (\<forall>pre' u'. quoted_at s pre' u' \<longrightarrow> length pre \<le> length pre'))"

subsection \<open>Links per store\<close>

text \<open>
  \<^verbatim>\<open>groupby\<close> on the first column with the default \<^verbatim>\<open>sort=True\<close>: one group per
  key, the keys ascending, the rows of a group in the order of the frame.
\<close>

definition groupby :: "(('k::linorder) \<times> 'v) list \<Rightarrow> ('k \<times> 'v list) list" where
  "groupby rows =
     map (\<lambda>k. (k, map snd (filter (\<lambda>r. fst r = k) rows)))
       (sort (drop_duplicates (map fst rows)))"

definition unique :: "'a list \<Rightarrow> 'a list" where
  "unique s = drop_duplicates s"

definition nunique :: "'a list \<Rightarrow> nat" where
  "nunique s = length (drop_duplicates s)"

text \<open>The links of one store, in the order of the pair sequence.\<close>

definition links_of :: "(string \<times> string) list \<Rightarrow> string \<Rightarrow> string list" where
  "links_of pu k = map snd (filter (\<lambda>r. fst r = k) pu)"

text \<open>\<^verbatim>\<open>sep.join(xs)\<close>.\<close>

fun join :: "string \<Rightarrow> string list \<Rightarrow> string" where
  "join sep [] = []"
| "join sep [x] = x"
| "join sep (x # y # ys) = x @ sep @ join sep (y # ys)"

text \<open>
  \<^verbatim>\<open>dedup_por_tienda.py\<close>, lines 53 to 59: per store the number of distinct links and
  the distinct links joined by line feeds; \<^verbatim>\<open>sort_values("tienda")\<close> at the end.
\<close>

definition links_por_tienda :: "(string \<times> string) list \<Rightarrow> (string \<times> nat \<times> string) list" where
  "links_por_tienda pu =
     sort_key fst (map (\<lambda>(t, s). (t, nunique s, join [CHR 0x0A] (unique s))) (groupby pu))"

text \<open>
  \<^verbatim>\<open>extraer_tienda_links.py\<close>, lines 72 to 74. The dictionary keeps its keys in
  insertion order; \<^verbatim>\<open>agrupado[t].append(l)\<close> extends the list of an old key and starts
  the list of a new one.
\<close>

fun append_link :: "(string \<times> string list) list \<Rightarrow> string \<Rightarrow> string \<Rightarrow> (string \<times> string list) list" where
  "append_link [] t l = [(t, [l])]"
| "append_link ((k, ls) # d) t l =
     (if k = t then (k, ls @ [l]) # d else (k, ls) # append_link d t l)"

definition agrupado :: "(string \<times> string) list \<Rightarrow> (string \<times> string list) list" where
  "agrupado pu = foldl (\<lambda>d (t, l). append_link d t l) [] pu"

text \<open>\<^verbatim>\<open>sorted(agrupado.items())\<close> of line 75: the (store, links) tuples, ascending.\<close>

definition sorted_items :: "(string \<times> string) list \<Rightarrow> (string \<times> string list) list" where
  "sorted_items pu = sort (agrupado pu)"

definition df_group :: "(string \<times> string) list \<Rightarrow> (string \<times> string) list" where
  "df_group pu = map (\<lambda>(t, links). (t, join [CHR 0x0A] links)) (sorted_items pu)"

subsection \<open>One link per store\<close>

text \<open>
  \<^verbatim>\<open>dedup_por_tienda.py\<close>, lines 76 to 80: the pairs sorted again, grouped by store,
  and the first row of every group. A group of \<^verbatim>\<open>groupby\<close> is never empty.
\<close>

definition uno_por_tienda :: "(string \<times> string) list \<Rightarrow> (string \<times> string) list" where
  "uno_por_tienda pu =
     concat (map (\<lambda>(t, s). case s of [] \<Rightarrow> [] | l # rest \<Rightarrow> [(t, l)])
               (groupby (sort_values pu)))"

subsection \<open>Comparison of two store sets\<close>

record ComparisonResult =
  matched :: "string list"
  onlyA :: "string list"
  onlyB :: "string list"

text \<open>
  Modelled from the spec: \<^verbatim>\<open>compare(storesA, storesB)\<close> of the interactive application,
  of which the sources hold the header comment only. The spec, section 4.4: matched is
  the intersection, onlyA and onlyB are the two differences, each returned as a
  lexicographically sorted sequence with no duplicates.
\<close>

definition compare :: "string set \<Rightarrow> string set \<Rightarrow> ComparisonResult" where
  "compare A B =
     \<lparr>matched = sorted_list_of_set (A \<inter> B),
      onlyA = sorted_list_of_set (A - B),
      onlyB = sorted_list_of_set (B - A)\<rparr>"

section \<open>Properties\<close>

subsection \<open>Helper facts on the pandas operations\<close>

lemma set_drop_duplicates: "set (drop_duplicates xs) = set xs"
  by (induction xs rule: drop_duplicates.induct) auto

lemma distinct_drop_duplicates: "distinct (drop_duplicates xs)"
  by (induction xs rule: drop_duplicates.induct) (auto simp: set_drop_duplicates)

lemma drop_duplicates_distinct_id: "distinct xs \<Longrightarrow> drop_duplicates xs = xs"
proof (induction xs)
  case Nil
  then show ?case by simp
next
  case (Cons x xs)
  then have "filter (\<lambda>y. y \<noteq> x) xs = xs"
    by (auto intro: filter_True)
  with Cons show ?case by simp
qed

lemma sorted_sort_values: "sorted (sort_values rows)"
  by (simp add: sort_values_def)

lemma set_sort_values: "set (sort_values rows) = set rows"
  by (simp add: sort_values_def)

lemma distinct_sort_values: "distinct (sort_values rows) = distinct rows"
  by (simp add: sort_values_def)

lemma sort_values_sorted_id: "sorted rows \<Longrightarrow> sort_values rows = rows"
  by (simp add: sort_values_def sorted_sort_id)

lemma df_unique_eq_pares_unicos: "df_unique df = pares_unicos df"
  by (simp add: df_unique_def pares_unicos_def)

lemma sorted_pairs_lexicographic:
  fixes rows :: "(string \<times> string) list"
  assumes "sorted rows"
  shows "sorted_wrt (\<lambda>p q. fst p < fst q \<or> (fst p = fst q \<and> snd p \<le> snd q)) rows"
  using assms by (rule sorted_wrt_mono_rel [rotated]) (auto simp: less_eq_prod_def)

subsection \<open>The unique pairs are sorted and free of duplicates\<close>

text \<open>
  C1. For every table of (store, link) pairs, the deduplication of both scripts returns
  the pairs sorted lexicographically by (store, link), with exact duplicates removed:
  the result is ascending (of two pairs the one with the smaller store comes first, and
  of two pairs of one store the one with the smaller link), has no repeated pair and
  holds exactly the pairs of the input.
  For the rows (Store A, http://x), (Store A, http://x), (Store B, http://y) the result
  is exactly the two pairs (Store A, http://x) and (Store B, http://y).
\<close>

theorem dedup_sorted_unique:
  "sorted (pares_unicos base)
   \<and> sorted_wrt (\<lambda>p q. fst p < fst q \<or> (fst p = fst q \<and> snd p \<le> snd q)) (pares_unicos base)
   \<and> distinct (pares_unicos base)
   \<and> set (pares_unicos base) = set base
   \<and> df_unique base = pares_unicos base
   \<and> pares_unicos [(''Store A'', ''http://x''), (''Store A'', ''http://x''),
                    (''Store B'', ''http://y'')]
      = [(''Store A'', ''http://x''), (''Store B'', ''http://y'')]"
proof -
  have s: "sorted (pares_unicos base)"
    by (simp add: pares_unicos_def sorted_sort_values)
  moreover have "sorted_wrt (\<lambda>p q. fst p < fst q \<or> (fst p = fst q \<and> snd p \<le> snd q))
                   (pares_unicos base)"
    using s by (rule sorted_pairs_lexicographic)
  moreover have "distinct (pares_unicos base)"
    by (simp add: pares_unicos_def distinct_sort_values distinct_drop_duplicates)
  moreover have "set (pares_unicos base) = set base"
    by (simp add: pares_unicos_def set_sort_values set_drop_duplicates)
  moreover have "df_unique base = pares_unicos base"
    by (rule df_unique_eq_pares_unicos)
  moreover have "pares_unicos [(''Store A'', ''http://x''), (''Store A'', ''http://x''),
                    (''Store B'', ''http://y'')]
      = [(''Store A'', ''http://x''), (''Store B'', ''http://y'')]"
    by (simp add: pares_unicos_def sort_values_def)
  ultimately show ?thesis by blast
qed

subsection \<open>Deduplication is idempotent\<close>

text \<open>
  C8. For every pair sequence P, deduplicating the deduplicated pairs gives the
  deduplicated pairs again, and the deduplicated pairs contain no two equal pairs.
\<close>

theorem dedup_idempotent:
  "pares_unicos (pares_unicos P) = pares_unicos P \<and> distinct (pares_unicos P)"
proof -
  have d: "distinct (pares_unicos P)"
    by (simp add: pares_unicos_def distinct_sort_values distinct_drop_duplicates)
  have s: "sorted (pares_unicos P)"
    by (simp add: pares_unicos_def sorted_sort_values)
  have "pares_unicos (pares_unicos P) = sort_values (pares_unicos P)"
    using d by (simp add: pares_unicos_def [of "pares_unicos P"] drop_duplicates_distinct_id)
  also have "\<dots> = pares_unicos P"
    using s by (rule sort_values_sorted_id)
  finally show ?thesis using d by simp
qed

subsection \<open>Normalisation of store names\<close>

lemma rev_dropWhile_takeWhile:
  "rev (dropWhile P (rev xs)) @ rev (takeWhile P (rev xs)) = xs"
proof -
  have "rev (takeWhile P (rev xs) @ dropWhile P (rev xs)) = xs"
    by (simp only: takeWhile_dropWhile_id rev_rev_ident)
  then show ?thesis by (simp only: rev_append)
qed

lemma strip_decompose:
  "\<exists>pre post. s = pre @ strip s @ post \<and> list_all isspace pre \<and> list_all isspace post"
proof -
  define d where "d = dropWhile isspace s"
  define pre where "pre = takeWhile isspace s"
  define post where "post = rev (takeWhile isspace (rev d))"
  have s: "s = pre @ d"
    by (simp add: pre_def d_def)
  have d: "d = strip s @ post"
    using rev_dropWhile_takeWhile [of isspace d] by (simp add: strip_def post_def d_def)
  have "list_all isspace pre"
    unfolding pre_def list_all_iff by (auto dest: set_takeWhileD)
  moreover have "list_all isspace post"
    unfolding post_def list_all_iff by (auto dest: set_takeWhileD)
  ultimately show ?thesis using s d by auto
qed

lemma strip_ends:
  assumes "strip s \<noteq> []"
  shows "\<not> isspace (hd (strip s))" and "\<not> isspace (last (strip s))"
proof -
  define d where "d = dropWhile isspace s"
  have ne: "dropWhile isspace (rev d) \<noteq> []"
    using assms by (simp add: strip_def d_def)
  have "last (strip s) = hd (dropWhile isspace (rev d))"
    using ne by (simp add: strip_def d_def last_rev)
  then show "\<not> isspace (last (strip s))"
    using ne hd_dropWhile [of isspace "rev d"] by simp
  have dd: "d = strip s @ rev (takeWhile isspace (rev d))"
    using rev_dropWhile_takeWhile [of isspace d] by (simp add: strip_def d_def)
  then have "hd d = hd (strip s)"
    using assms by (metis hd_append2)
  moreover have "d \<noteq> []" using dd assms by auto
  ultimately show "\<not> isspace (hd (strip s))"
    using hd_dropWhile [of isspace s] by (simp add: d_def)
qed

lemma base_limpia_rows:
  "base_limpia base =
     map (\<lambda>(t, l). (strip (astype_str t), strip (astype_str l)))
       (filter (\<lambda>(t, l). t \<noteq> Missing \<and> l \<noteq> Missing \<and> strip (astype_str l) \<noteq> []) base)"
  by (induction base) (auto simp: base_limpia_def dropna_def)

lemma base_limpia_stores:
  "map fst (base_limpia base) =
     map (\<lambda>(t, l). strip (astype_str t))
       (filter (\<lambda>(t, l). t \<noteq> Missing \<and> l \<noteq> Missing \<and> strip (astype_str l) \<noteq> []) base)"
  by (induction base) (auto simp: base_limpia_def dropna_def)

lemma fila_pares_cases:
  "fila_pares t c = [] \<or> (\<exists>l. fila_pares t c = [(strip (str t), l)])"
  by (auto simp: fila_pares_def split: option.splits)

lemma pares_stores:
  "map fst (pares rows) =
     map (\<lambda>(t, c). strip (str t)) (filter (\<lambda>(t, c). fila_pares t c \<noteq> []) rows)"
proof (induction rows rule: pares.induct)
  case 1
  then show ?case by simp
next
  case (2 tienda c rows)
  from fila_pares_cases [of tienda c] show ?case
  proof
    assume "fila_pares tienda c = []"
    with 2 show ?thesis by simp
  next
    assume "\<exists>l. fila_pares tienda c = [(strip (str tienda), l)]"
    then obtain l where "fila_pares tienda c = [(strip (str tienda), l)]" by blast
    with 2 show ?thesis by simp
  qed
qed

text \<open>
  C3, as the claim states it, fails on both scripts: the store value with two inner
  spaces keeps them, so the cleaned row is not the one with the store name Store X.
\<close>

theorem store_not_collapsed:
  "base_limpia [(Text ''  Store  X '', Text ''http://a'')] \<noteq> [(''Store X'', ''http://a'')]
   \<and> pares [(Text ''  Store  X '',
             \<lparr>cvalue = Missing, chyperlink = Some (Hyperlink (Some ''http://a''))\<rparr>)]
      \<noteq> [(''Store X'', ''http://a'')]"
  by (simp add: base_limpia_def dropna_def strip_def isspace_def fila_pares_def url_detectada_def
      not_url_def is_str_def)

text \<open>
  C3, amended. For every value in the store column, normalisation is \<^verbatim>\<open>strip\<close> of the
  value's text: row by row, in the order of the rows, the store of every row that both
  scripts keep is the strip of that row's own store value. \<^verbatim>\<open>strip\<close> removes the
  whitespace before the first and after the last character that is not whitespace, and
  leaves the text in between as it is, inner runs of whitespace included. The store value
  with two leading spaces, two inner spaces and one trailing space normalises to Store X
  with its two inner spaces.
\<close>

theorem store_trimmed:
  "map fst (base_limpia base) =
     map (\<lambda>(t, l). strip (astype_str t))
       (filter (\<lambda>(t, l). t \<noteq> Missing \<and> l \<noteq> Missing \<and> strip (astype_str l) \<noteq> []) base)
   \<and> map fst (pares rows) =
     map (\<lambda>(t, c). strip (str t)) (filter (\<lambda>(t, c). fila_pares t c \<noteq> []) rows)
   \<and> (\<exists>pre post. s = pre @ strip s @ post \<and> list_all isspace pre \<and> list_all isspace post)
   \<and> (strip s \<noteq> [] \<longrightarrow> \<not> isspace (hd (strip s)) \<and> \<not> isspace (last (strip s)))
   \<and> strip ''  Store  X '' = ''Store  X''"
proof -
  have "strip ''  Store  X '' = ''Store  X''"
    by (simp add: strip_def isspace_def)
  then show ?thesis
    using base_limpia_stores [of base] pares_stores [of rows]
      strip_decompose [of s] strip_ends [of s] by blast
qed

theorem store_trimmed_witness:
  "map fst (base_limpia [(Text '' A '', Text ''u''), (Text ''  Store  X '', Text ''http://a'')])
     = [''A'', ''Store  X'']
   \<and> map fst (pares [(Text '' A '', \<lparr>cvalue = Text ''u'', chyperlink = Some (Hyperlink (Some ''u''))\<rparr>),
                     (Text ''  Store  X '',
                      \<lparr>cvalue = Text ''http://a'', chyperlink = Some (Hyperlink (Some ''http://a''))\<rparr>)])
     = [''A'', ''Store  X'']
   \<and> strip ''  Store  X '' \<noteq> []
   \<and> \<not> isspace (hd (strip ''  Store  X '')) \<and> \<not> isspace (last (strip ''  Store  X ''))"
proof -
  let ?base = "[(Text '' A '', Text ''u''), (Text ''  Store  X '', Text ''http://a'')]"
  let ?rows = "[(Text '' A '', \<lparr>cvalue = Text ''u'', chyperlink = Some (Hyperlink (Some ''u''))\<rparr>),
                (Text ''  Store  X '',
                 \<lparr>cvalue = Text ''http://a'', chyperlink = Some (Hyperlink (Some ''http://a''))\<rparr>)]"
  note t = store_trimmed [of ?base ?rows "''  Store  X ''"]
  have b: "map fst (base_limpia ?base) = [''A'', ''Store  X'']"
    using t [THEN conjunct1] by (simp add: strip_def isspace_def)
  have p: "map fst (pares ?rows) = [''A'', ''Store  X'']"
    using t [THEN conjunct2, THEN conjunct1]
    by (simp add: strip_def isspace_def fila_pares_def url_detectada_def not_url_def is_str_def)
  have n: "strip ''  Store  X '' \<noteq> []"
    by (simp add: strip_def isspace_def)
  have e: "\<not> isspace (hd (strip ''  Store  X '')) \<and> \<not> isspace (last (strip ''  Store  X ''))"
    using t [THEN conjunct2, THEN conjunct2, THEN conjunct2, THEN conjunct1] n by blast
  show ?thesis using b p n e by (intro conjI) simp_all
qed

subsection \<open>Rows with an empty store or link\<close>

text \<open>
  What the cleaning of \<^verbatim>\<open>dedup_por_tienda.py\<close> does exclude: a row with a missing
  cell, and a row whose link is empty after stripping.
\<close>

lemma base_limpia_link_nonempty: "(t, l) \<in> set (base_limpia base) \<Longrightarrow> l \<noteq> []"
  by (auto simp: base_limpia_def)

lemma base_limpia_missing:
  "base_limpia ((Missing, l) # base) = base_limpia base"
  "base_limpia ((t, Missing) # base) = base_limpia base"
  by (simp_all add: base_limpia_def dropna_def)

text \<open>
  C5. Rows whose store or link is empty after normalisation should contribute no pair.
  At a row whose store cell holds three spaces and whose link is http://x, both scripts
  keep a pair with the empty store name; the workbook extractor also keeps a pair with an
  empty link when the hyperlink target is blank.
\<close>

theorem empty_store_row_kept:
  "base_limpia [(Text ''   '', Text ''http://x'')] = [([], ''http://x'')]
   \<and> pares [(Text ''   '',
             \<lparr>cvalue = Missing, chyperlink = Some (Hyperlink (Some ''http://x''))\<rparr>)]
      = [([], ''http://x'')]
   \<and> pares [(Text ''Store A'',
             \<lparr>cvalue = Missing, chyperlink = Some (Hyperlink (Some ''  ''))\<rparr>)]
      = [(''Store A'', [])]"
  by (simp add: base_limpia_def dropna_def strip_def isspace_def fila_pares_def url_detectada_def
      not_url_def is_str_def)

subsection \<open>Choice of the link column\<close>

lemma literal_ci_Some_iff:
  "literal_ci p s = Some r \<longleftrightarrow> (\<exists>u. s = u @ r \<and> list_all2 ci_char p u)"
proof (induction p s rule: literal_ci.induct)
  case (1 s)
  then show ?case by auto
next
  case (2 p ps)
  then show ?case by (auto simp: list_all2_Cons1)
next
  case (3 p ps c cs)
  show ?case
  proof (cases "ci_char p c")
    case True
    with 3 show ?thesis
      by (auto simp: list_all2_Cons1 Cons_eq_append_conv)
  next
    case False
    then show ?thesis
      by (auto simp: list_all2_Cons1 Cons_eq_append_conv)
  qed
qed

lemma http_prefix_Some_iff:
  "http_prefix s \<noteq> None \<longleftrightarrow> (\<exists>u post. s = u @ post \<and> http_like u)"
proof -
  have "http_prefix s \<noteq> None \<longleftrightarrow>
        (\<exists>r. literal_ci ''https://'' s = Some r) \<or> (\<exists>r. literal_ci ''http://'' s = Some r)"
    by (auto simp: http_prefix_def split: option.splits)
  then show ?thesis
    unfolding literal_ci_Some_iff http_like_def by blast
qed

lemma contains_url_iff:
  "contains_url s \<longleftrightarrow> (\<exists>pre u post. s = pre @ u @ post \<and> http_like u)"
proof (induction s)
  case Nil
  then show ?case by (auto simp: http_like_def)
next
  case (Cons c cs)
  show ?case
  proof
    assume "contains_url (c # cs)"
    then consider "http_prefix (c # cs) \<noteq> None" | "contains_url cs" by auto
    then show "\<exists>pre u post. c # cs = pre @ u @ post \<and> http_like u"
    proof cases
      case 1
      then obtain u post where "c # cs = u @ post" "http_like u"
        using http_prefix_Some_iff by blast
      then have "c # cs = [] @ u @ post \<and> http_like u" by simp
      then show ?thesis by blast
    next
      case 2
      then obtain pre u post where "cs = pre @ u @ post" "http_like u"
        using Cons.IH by blast
      then have "c # cs = (c # pre) @ u @ post \<and> http_like u" by simp
      then show ?thesis by blast
    qed
  next
    assume "\<exists>pre u post. c # cs = pre @ u @ post \<and> http_like u"
    then obtain pre u post where e: "c # cs = pre @ u @ post" and h: "http_like u" by blast
    show "contains_url (c # cs)"
    proof (cases pre)
      case Nil
      then have "http_prefix (c # cs) \<noteq> None"
        using e h http_prefix_Some_iff [of "c # cs"] by auto
      then show ?thesis by simp
    next
      case (Cons a pre')
      then have "cs = pre' @ u @ post" using e by simp
      then have "contains_url cs" using h Cons.IH by blast
      then show ?thesis by simp
    qed
  qed
qed

lemma first_preferred_None_iff:
  "first_preferred df prefer = None \<longleftrightarrow> (\<forall>p \<in> set prefer. p \<notin> set (columns df))"
  by (induction "prefer") auto

lemma first_preferred_split:
  "prefer = pre @ p # post \<Longrightarrow> p \<in> set (columns df) \<Longrightarrow> \<forall>q \<in> set pre. q \<notin> set (columns df)
   \<Longrightarrow> first_preferred df prefer = Some p"
  by (induction pre arbitrary: "prefer") auto

lemma first_url_column_None_iff:
  "first_url_column df cs = None \<longleftrightarrow> (\<forall>c \<in> set cs. \<not> any_contains_url (getitem df c))"
  by (induction cs) auto

lemma first_url_column_split:
  "cs = pre @ c # post \<Longrightarrow> any_contains_url (getitem df c)
   \<Longrightarrow> \<forall>q \<in> set pre. \<not> any_contains_url (getitem df q)
   \<Longrightarrow> first_url_column df cs = Some c"
  by (induction pre arbitrary: cs) auto

lemma getitem_column:
  "distinct (columns df) \<Longrightarrow> (c, vs) \<in> set df \<Longrightarrow> getitem df c = vs"
  by (simp add: getitem_def columns_def)

lemma any_contains_url_iff:
  "any_contains_url vs \<longleftrightarrow>
     (\<exists>v \<in> set vs. \<exists>pre u post. astype_str v = pre @ u @ post \<and> http_like u)"
  by (simp add: any_contains_url_def list_ex_iff contains_url_iff)

text \<open>
  C4. For a table whose columns have names of their own and no explicit choice of the
  link column, \<^verbatim>\<open>autodetect_link_column\<close> first applies the priority list: it returns
  the first preferred name, in the order of the list, that is a column of the table.
  When no preferred name is a column, it scans the columns left to right and returns
  the first one with at least one value whose text has an HTTP-like part (\<^verbatim>\<open>http://\<close>
  or \<^verbatim>\<open>https://\<close>, the case of the letters ignored). It raises the error if and only
  if no preferred name is a column and no column has such a value.
\<close>

theorem autodetect_link_column_order:
  assumes "distinct (columns df)"
  shows "(\<forall>pre p post. prefer = pre @ p # post \<and> p \<in> set (columns df)
             \<and> (\<forall>q \<in> set pre. q \<notin> set (columns df))
           \<longrightarrow> autodetect_link_column df prefer = Inr p)
       \<and> ((\<forall>p \<in> set prefer. p \<notin> set (columns df)) \<longrightarrow>
            (\<forall>before c vs after. df = before @ (c, vs) # after \<and> any_contains_url vs
                \<and> (\<forall>r \<in> set before. \<not> any_contains_url (snd r))
              \<longrightarrow> autodetect_link_column df prefer = Inr c))
       \<and> (autodetect_link_column df prefer = Inl ValueError \<longleftrightarrow>
            (\<forall>p \<in> set prefer. p \<notin> set (columns df))
            \<and> (\<forall>r \<in> set df. \<not> any_contains_url (snd r)))
       \<and> (\<forall>vs. any_contains_url vs \<longleftrightarrow>
            (\<exists>v \<in> set vs. \<exists>pre u post. astype_str v = pre @ u @ post \<and> http_like u))"
proof -
  have get: "getitem df (fst r) = snd r" if "r \<in> set df" for r
    using that getitem_column [OF assms, of "fst r" "snd r"] by simp
  have a: "autodetect_link_column df prefer = Inr p"
    if "prefer = pre @ p # post" "p \<in> set (columns df)" "\<forall>q \<in> set pre. q \<notin> set (columns df)"
    for pre p post
    using first_preferred_split [OF that] by (simp add: autodetect_link_column_def)
  have b: "autodetect_link_column df prefer = Inr c"
    if none: "\<forall>p \<in> set prefer. p \<notin> set (columns df)"
      and df: "df = before @ (c, vs) # after" and url: "any_contains_url vs"
      and first: "\<forall>r \<in> set before. \<not> any_contains_url (snd r)"
    for before c vs after
  proof -
    have np: "first_preferred df prefer = None"
      using none by (simp add: first_preferred_None_iff)
    have cols: "columns df = map fst before @ c # map fst after"
      using df by (simp add: columns_def)
    have "(c, vs) \<in> set df" using df by simp
    then have gc: "any_contains_url (getitem df c)"
      using get [of "(c, vs)"] url by simp
    have "\<not> any_contains_url (getitem df q)" if "q \<in> set (map fst before)" for q
    proof -
      from that obtain r where r: "r \<in> set before" "q = fst r" by auto
      then have "r \<in> set df" using df by simp
      then show ?thesis using get [of r] r first by simp
    qed
    then have "first_url_column df (columns df) = Some c"
      using first_url_column_split [OF cols gc] by blast
    with np show ?thesis by (simp add: autodetect_link_column_def)
  qed
  have c: "autodetect_link_column df prefer = Inl ValueError \<longleftrightarrow>
            (\<forall>p \<in> set prefer. p \<notin> set (columns df))
            \<and> (\<forall>r \<in> set df. \<not> any_contains_url (snd r))"
  proof -
    have "autodetect_link_column df prefer = Inl ValueError \<longleftrightarrow>
          first_preferred df prefer = None \<and> first_url_column df (columns df) = None"
      by (auto simp: autodetect_link_column_def split: option.splits)
    moreover have "first_url_column df (columns df) = None \<longleftrightarrow>
          (\<forall>r \<in> set df. \<not> any_contains_url (snd r))"
      using get by (auto simp: first_url_column_None_iff columns_def)
    ultimately show ?thesis by (simp add: first_preferred_None_iff)
  qed
  show ?thesis
  proof (intro conjI allI impI)
    fix pre p post
    assume "prefer = pre @ p # post \<and> p \<in> set (columns df)
             \<and> (\<forall>q \<in> set pre. q \<notin> set (columns df))"
    then show "autodetect_link_column df prefer = Inr p" using a by blast
  next
    fix before c vs after
    assume "\<forall>p \<in> set prefer. p \<notin> set (columns df)"
      and "df = before @ (c, vs) # after \<and> any_contains_url vs
                \<and> (\<forall>r \<in> set before. \<not> any_contains_url (snd r))"
    then show "autodetect_link_column df prefer = Inr c" using b by blast
  next
    show "autodetect_link_column df prefer = Inl ValueError \<longleftrightarrow>
            (\<forall>p \<in> set prefer. p \<notin> set (columns df))
            \<and> (\<forall>r \<in> set df. \<not> any_contains_url (snd r))" by (rule c)
  next
    fix vs
    show "any_contains_url vs \<longleftrightarrow>
            (\<exists>v \<in> set vs. \<exists>pre u post. astype_str v = pre @ u @ post \<and> http_like u)"
      by (rule any_contains_url_iff)
  qed
qed

theorem autodetect_link_column_order_witness:
  "distinct (columns [(''id_visita'', [Text ''0123'']), (''link'', [Text ''see HTTPS://q''])])
   \<and> autodetect_link_column [(''id_visita'', [Text ''0123'']), (''link'', [Text ''see HTTPS://q''])]
        PREFER_COLS = Inr ''link''
   \<and> autodetect_link_column [(''a'', [Missing, Scalar True ''3'']), (''b'', [Text ''see HTTPS://q''])]
        PREFER_COLS = Inr ''b''
   \<and> autodetect_link_column [(''a'', [Missing, Scalar True ''3''])] PREFER_COLS = Inl ValueError"
proof -
  let ?df1 = "[(''id_visita'', [Text ''0123'']), (''link'', [Text ''see HTTPS://q''])]"
  let ?df2 = "[(''a'', [Missing, Scalar True ''3'']), (''b'', [Text ''see HTTPS://q''])]"
  let ?df3 = "[(''a'', [Missing, Scalar True ''3''])]"
  have d1: "distinct (columns ?df1)" by (simp add: columns_def)
  have d2: "distinct (columns ?df2)" by (simp add: columns_def)
  have d3: "distinct (columns ?df3)" by (simp add: columns_def)
  have r1: "autodetect_link_column ?df1 PREFER_COLS = Inr ''link''"
    by (rule autodetect_link_column_order [OF d1, of PREFER_COLS, THEN conjunct1, rule_format,
          of "[''id_visita (URL extra'' @ [CHR 0xED] @ ''da)'']" "''link''" "[''id_visita'']"])
       (simp add: PREFER_COLS_def columns_def)
  have n2: "\<forall>p \<in> set PREFER_COLS. p \<notin> set (columns ?df2)"
    by (simp add: PREFER_COLS_def columns_def)
  have r2: "autodetect_link_column ?df2 PREFER_COLS = Inr ''b''"
    by (rule autodetect_link_column_order [OF d2, of PREFER_COLS, THEN conjunct2, THEN conjunct1,
          THEN mp, OF n2, rule_format,
          of "[(''a'', [Missing, Scalar True ''3''])]" "''b''" "[Text ''see HTTPS://q'']" "[]"])
       (simp add: any_contains_url_def http_prefix_def ci_char_def)
  have n3: "(\<forall>p \<in> set PREFER_COLS. p \<notin> set (columns ?df3))
            \<and> (\<forall>r \<in> set ?df3. \<not> any_contains_url (snd r))"
    by (simp add: PREFER_COLS_def columns_def any_contains_url_def http_prefix_def ci_char_def)
  have r3: "autodetect_link_column ?df3 PREFER_COLS = Inl ValueError"
    by (rule autodetect_link_column_order [OF d3, of PREFER_COLS, THEN conjunct2, THEN conjunct2,
          THEN conjunct1, THEN iffD2, OF n3])
  show ?thesis using d1 r1 r2 r3 by (intro conjI)
qed

subsection \<open>Links grouped by store\<close>

lemma drop_duplicates_snoc:
  "drop_duplicates (xs @ [x]) =
     (if x \<in> set xs then drop_duplicates xs else drop_duplicates xs @ [x])"
  by (induction xs rule: drop_duplicates.induct) auto

lemma append_link_map:
  "distinct ks \<Longrightarrow>
   append_link (map (\<lambda>k. (k, g k)) ks) t l =
     (if t \<in> set ks then map (\<lambda>k. (k, if k = t then g k @ [l] else g k)) ks
      else map (\<lambda>k. (k, g k)) ks @ [(t, [l])])"
  by (induction ks) auto

lemma agrupado_snoc: "agrupado (pu @ [(t, l)]) = append_link (agrupado pu) t l"
  by (simp add: agrupado_def)

lemma agrupado_eq:
  "agrupado pu = map (\<lambda>k. (k, links_of pu k)) (drop_duplicates (map fst pu))"
proof (induction pu rule: rev_induct)
  case Nil
  then show ?case by (simp add: agrupado_def)
next
  case (snoc r pu)
  obtain t l where r: "r = (t, l)" by (cases r)
  let ?ks = "drop_duplicates (map fst pu)"
  have d: "distinct ?ks" by (rule distinct_drop_duplicates)
  have s: "set ?ks = fst ` set pu" by (simp add: set_drop_duplicates)
  have "agrupado (pu @ [r]) = append_link (map (\<lambda>k. (k, links_of pu k)) ?ks) t l"
    using snoc.IH r by (simp add: agrupado_snoc)
  also have "\<dots> = (if t \<in> set ?ks
        then map (\<lambda>k. (k, if k = t then links_of pu k @ [l] else links_of pu k)) ?ks
        else map (\<lambda>k. (k, links_of pu k)) ?ks @ [(t, [l])])"
    by (rule append_link_map [OF d])
  also have "\<dots> = map (\<lambda>k. (k, links_of (pu @ [r]) k)) (drop_duplicates (map fst (pu @ [r])))"
  proof (cases "t \<in> set ?ks")
    case True
    then have "drop_duplicates (map fst (pu @ [r])) = ?ks"
      using r s by (simp add: drop_duplicates_snoc)
    moreover have "(if k = t then links_of pu k @ [l] else links_of pu k) = links_of (pu @ [r]) k" for k
      using r by (simp add: links_of_def)
    ultimately show ?thesis using True by simp
  next
    case False
    then have n: "t \<notin> fst ` set pu" using s by simp
    then have "drop_duplicates (map fst (pu @ [r])) = ?ks @ [t]"
      using r by (simp add: drop_duplicates_snoc)
    moreover have "links_of (pu @ [r]) k = links_of pu k" if "k \<in> set ?ks" for k
    proof -
      from that n s have "k \<noteq> t" by auto
      then show ?thesis using r by (simp add: links_of_def)
    qed
    moreover have "links_of (pu @ [r]) t = [l]"
    proof -
      have "filter (\<lambda>r. fst r = t) pu = []"
        using n by (auto simp: filter_empty_conv)
      then show ?thesis using r by (simp add: links_of_def)
    qed
    ultimately show ?thesis using False by simp
  qed
  finally show ?case .
qed

lemma sorted_key_pairs:
  fixes ks :: "string list" and g :: "string \<Rightarrow> string list"
  shows "sorted ks \<Longrightarrow> sorted (map (\<lambda>k. (k, g k)) ks)"
proof -
  assume "sorted ks"
  then have "sorted_wrt (\<lambda>x y. (x, g x) \<le> (y, g y)) ks"
    by (rule sorted_wrt_mono_rel [rotated]) (auto simp: less_eq_prod_def order.order_iff_strict)
  then show ?thesis by (simp add: sorted_map)
qed

lemma distinct_key_pairs: "distinct ks \<Longrightarrow> distinct (map (\<lambda>k. (k, g k)) ks)"
  by (simp add: distinct_map inj_on_def)

lemma sorted_items_eq:
  "sorted_items pu = map (\<lambda>k. (k, links_of pu k)) (sort (drop_duplicates (map fst pu)))"
proof -
  let ?ks = "drop_duplicates (map fst pu)"
  let ?f = "\<lambda>k. (k, links_of pu k)"
  have "sorted (sort (map ?f ?ks))" by simp
  moreover have "distinct (sort (map ?f ?ks))"
    by (simp add: distinct_key_pairs distinct_drop_duplicates)
  moreover have "sorted (map ?f (sort ?ks))"
    by (rule sorted_key_pairs) simp
  moreover have "distinct (map ?f (sort ?ks))"
    by (rule distinct_key_pairs) (simp add: distinct_drop_duplicates)
  moreover have "set (sort (map ?f ?ks)) = set (map ?f (sort ?ks))" by simp
  ultimately have "sort (map ?f ?ks) = map ?f (sort ?ks)"
    by (rule sorted_distinct_set_unique)
  then show ?thesis by (simp add: sorted_items_def agrupado_eq)
qed

lemma groupby_eq:
  "groupby pu = map (\<lambda>k. (k, links_of pu k)) (sort (drop_duplicates (map fst pu)))"
  by (simp add: groupby_def links_of_def)

lemma distinct_links_of: "distinct pu \<Longrightarrow> distinct (links_of pu k)"
  unfolding links_of_def by (rule distinct_map [THEN iffD2]) (auto simp: inj_on_def prod_eq_iff)

lemma links_por_tienda_eq:
  assumes "distinct pu"
  shows "links_por_tienda pu =
           map (\<lambda>(t, links). (t, length links, join [CHR 0x0A] links)) (sorted_items pu)"
proof -
  let ?ks = "sort (drop_duplicates (map fst pu))"
  let ?row = "\<lambda>(t, s). (t, nunique s, join [CHR 0x0A] (unique s))"
  have u: "drop_duplicates (links_of pu k) = links_of pu k" for k
    using assms by (simp add: drop_duplicates_distinct_id distinct_links_of)
  have m: "map ?row (groupby pu)
           = map (\<lambda>k. (k, length (links_of pu k), join [CHR 0x0A] (links_of pu k))) ?ks"
    by (simp add: groupby_eq nunique_def unique_def u)
  have "map fst (map ?row (groupby pu)) = ?ks"
    unfolding m by (simp add: comp_def)
  then have "sorted (map fst (map ?row (groupby pu)))" by simp
  then have "links_por_tienda pu = map ?row (groupby pu)"
    unfolding links_por_tienda_def by (rule sort_key_id_if_sorted)
  then show ?thesis
    by (simp add: m sorted_items_eq comp_def)
qed

text \<open>
  C2. For every pair sequence without duplicates, the groups of both scripts (the
  sorted items of \<^verbatim>\<open>agrupado\<close>, which \<^verbatim>\<open>df_group\<close> and \<^verbatim>\<open>links_por_tienda\<close> render)
  are sorted by store name ascending, one group per store of the sequence; the links of
  a group are the links of its store in the order in which the pair sequence has them,
  and no link is repeated within a group.
\<close>

theorem group_by_store_first_seen:
  assumes "distinct pu"
  shows "sorted (map fst (sorted_items pu)) \<and> distinct (map fst (sorted_items pu))
       \<and> set (map fst (sorted_items pu)) = fst ` set pu
       \<and> (\<forall>g \<in> set (sorted_items pu).
             snd g = map snd (filter (\<lambda>r. fst r = fst g) pu) \<and> distinct (snd g))
       \<and> df_group pu = map (\<lambda>(t, links). (t, join [CHR 0x0A] links)) (sorted_items pu)
       \<and> links_por_tienda pu =
           map (\<lambda>(t, links). (t, length links, join [CHR 0x0A] links)) (sorted_items pu)"
proof -
  have k: "map fst (sorted_items pu) = sort (drop_duplicates (map fst pu))"
    by (simp add: sorted_items_eq comp_def)
  have "sorted (map fst (sorted_items pu))" by (simp add: k)
  moreover have "distinct (map fst (sorted_items pu))"
    by (simp add: k distinct_drop_duplicates)
  moreover have "set (map fst (sorted_items pu)) = fst ` set pu"
    by (simp add: k set_drop_duplicates)
  moreover have "\<forall>g \<in> set (sorted_items pu).
             snd g = map snd (filter (\<lambda>r. fst r = fst g) pu) \<and> distinct (snd g)"
    using distinct_links_of [OF assms] by (auto simp: sorted_items_eq links_of_def)
  moreover have "df_group pu = map (\<lambda>(t, links). (t, join [CHR 0x0A] links)) (sorted_items pu)"
    by (simp add: df_group_def)
  moreover note links_por_tienda_eq [OF assms]
  ultimately show ?thesis by blast
qed

theorem group_by_store_first_seen_witness:
  "distinct [(''A'', ''u3''), (''B'', ''u1''), (''B'', ''u2'')]
   \<and> sorted_items [(''A'', ''u3''), (''B'', ''u1''), (''B'', ''u2'')]
       = [(''A'', [''u3'']), (''B'', [''u1'', ''u2''])]
   \<and> links_por_tienda [(''A'', ''u3''), (''B'', ''u1''), (''B'', ''u2'')]
       = [(''A'', 1, ''u3''), (''B'', 2, ''u1'' @ [CHR 0x0A] @ ''u2'')]
   \<and> sorted (map fst (sorted_items [(''A'', ''u3''), (''B'', ''u1''), (''B'', ''u2'')]))"
proof -
  let ?pu = "[(''A'', ''u3''), (''B'', ''u1''), (''B'', ''u2'')]"
  have d: "distinct ?pu" by simp
  have s: "sorted_items ?pu = [(''A'', [''u3'']), (''B'', [''u1'', ''u2''])]"
    by (simp add: sorted_items_def agrupado_def)
  note t = group_by_store_first_seen [OF d]
  have l: "links_por_tienda ?pu = [(''A'', 1, ''u3''), (''B'', 2, ''u1'' @ [CHR 0x0A] @ ''u2'')]"
    using t [THEN conjunct2, THEN conjunct2, THEN conjunct2, THEN conjunct2, THEN conjunct2]
    by (simp add: s)
  have g: "sorted (map fst (sorted_items ?pu))"
    by (rule t [THEN conjunct1])
  show ?thesis using d s l g by (intro conjI)
qed

subsection \<open>One link per store\<close>

lemma concat_first_rows:
  "\<forall>k \<in> set ks. g k \<noteq> [] \<Longrightarrow>
   concat (map (\<lambda>k. case g k of [] \<Rightarrow> [] | l # rest \<Rightarrow> [(k, l)]) ks) = map (\<lambda>k. (k, hd (g k))) ks"
  by (induction ks) (auto split: list.splits)

lemma sorted_hd_le: "sorted xs \<Longrightarrow> x \<in> set xs \<Longrightarrow> hd xs \<le> x"
  by (cases xs) auto

lemma uno_por_tienda_eq:
  "uno_por_tienda pu =
     map (\<lambda>k. (k, hd (links_of (sort_values pu) k))) (sort (drop_duplicates (map fst pu)))"
proof -
  let ?S = "sort_values pu"
  let ?ks = "sort (drop_duplicates (map fst ?S))"
  have ne: "\<forall>k \<in> set ?ks. links_of ?S k \<noteq> []"
    by (auto simp: links_of_def set_drop_duplicates filter_empty_conv)
  have "uno_por_tienda pu =
          concat (map (\<lambda>k. case links_of ?S k of [] \<Rightarrow> [] | l # rest \<Rightarrow> [(k, l)]) ?ks)"
    by (simp add: uno_por_tienda_def groupby_eq comp_def)
  also have "\<dots> = map (\<lambda>k. (k, hd (links_of ?S k))) ?ks"
    by (rule concat_first_rows [OF ne])
  also have "?ks = sort (drop_duplicates (map fst pu))"
  proof (rule sorted_distinct_set_unique)
    show "set ?ks = set (sort (drop_duplicates (map fst pu)))"
      by (simp add: set_drop_duplicates set_sort_values)
  qed (simp_all add: distinct_drop_duplicates)
  finally show ?thesis .
qed

lemma hd_links_of_sorted:
  assumes "(k, l) \<in> set pu"
  shows "(k, hd (links_of (sort_values pu) k)) \<in> set pu
         \<and> hd (links_of (sort_values pu) k) \<le> l"
proof -
  let ?F = "filter (\<lambda>r. fst r = k) (sort_values pu)"
  have in_F: "(k, l) \<in> set ?F"
    using assms by (simp add: set_sort_values)
  then have ne: "?F \<noteq> []" by (metis empty_iff list.set(1))
  have "sorted ?F"
    using sorted_filter [of "\<lambda>x. x" "sort_values pu" "\<lambda>r. fst r = k"]
    by (simp add: sorted_sort_values)
  then have le: "hd ?F \<le> (k, l)" using in_F by (rule sorted_hd_le)
  have "hd ?F \<in> set ?F" using ne by (rule hd_in_set)
  then have m: "hd ?F \<in> set pu" and f: "fst (hd ?F) = k"
    by (simp_all add: set_sort_values)
  have h: "hd (links_of (sort_values pu) k) = snd (hd ?F)"
    using ne by (simp add: links_of_def hd_map)
  have "(k, snd (hd ?F)) = hd ?F" using f by (simp add: prod_eq_iff)
  then have "(k, snd (hd ?F)) \<in> set pu" and "(k, snd (hd ?F)) \<le> (k, l)"
    using m le by simp_all
  then show ?thesis
    unfolding h by (simp add: less_eq_prod_def)
qed

text \<open>
  C10. With the one-link-per-store option, the table \<^verbatim>\<open>uno_por_tienda\<close> has exactly one
  row for each distinct store of the unique pairs (the stores ascending, none repeated),
  and the link of a row is the lexicographically smallest link among the links of its
  store.
\<close>

theorem uno_por_tienda_smallest_link:
  "sorted (map fst (uno_por_tienda pu)) \<and> distinct (map fst (uno_por_tienda pu))
   \<and> set (map fst (uno_por_tienda pu)) = fst ` set pu
   \<and> (\<forall>r \<in> set (uno_por_tienda pu).
         r \<in> set pu \<and> (\<forall>l. (fst r, l) \<in> set pu \<longrightarrow> snd r \<le> l))"
proof -
  have k: "map fst (uno_por_tienda pu) = sort (drop_duplicates (map fst pu))"
    by (simp add: uno_por_tienda_eq comp_def)
  have "sorted (map fst (uno_por_tienda pu))" by (simp add: k)
  moreover have "distinct (map fst (uno_por_tienda pu))"
    by (simp add: k distinct_drop_duplicates)
  moreover have "set (map fst (uno_por_tienda pu)) = fst ` set pu"
    by (simp add: k set_drop_duplicates)
  moreover have "\<forall>r \<in> set (uno_por_tienda pu).
         r \<in> set pu \<and> (\<forall>l. (fst r, l) \<in> set pu \<longrightarrow> snd r \<le> l)"
  proof
    fix r
    assume "r \<in> set (uno_por_tienda pu)"
    then obtain t where t: "t \<in> fst ` set pu" and r: "r = (t, hd (links_of (sort_values pu) t))"
      by (auto simp: uno_por_tienda_eq set_drop_duplicates)
    from t obtain l0 where "(t, l0) \<in> set pu" by auto
    then have "r \<in> set pu" using hd_links_of_sorted [of t l0 pu] r by simp
    moreover have "snd r \<le> l" if "(fst r, l) \<in> set pu" for l
      using that hd_links_of_sorted [of t l pu] r by simp
    ultimately show "r \<in> set pu \<and> (\<forall>l. (fst r, l) \<in> set pu \<longrightarrow> snd r \<le> l)" by blast
  qed
  ultimately show ?thesis by blast
qed

theorem uno_por_tienda_smallest_link_witness:
  "uno_por_tienda (pares_unicos [(''B'', ''u2''), (''A'', ''u3''), (''B'', ''u1''), (''A'', ''u3'')])
     = [(''A'', ''u3''), (''B'', ''u1'')]
   \<and> (''B'', ''u1'') \<in> set (uno_por_tienda [(''A'', ''u3''), (''B'', ''u1''), (''B'', ''u2'')])
   \<and> (''B'', ''u2'') \<in> set [(''A'', ''u3''), (''B'', ''u1''), (''B'', ''u2'')]
   \<and> ''u1'' \<le> ''u2''"
proof -
  let ?pu = "[(''A'', ''u3''), (''B'', ''u1''), (''B'', ''u2'')]"
  have e: "uno_por_tienda (pares_unicos [(''B'', ''u2''), (''A'', ''u3''), (''B'', ''u1''), (''A'', ''u3'')])
     = [(''A'', ''u3''), (''B'', ''u1'')]"
    by (simp add: uno_por_tienda_def groupby_def pares_unicos_def sort_values_def)
  have r: "(''B'', ''u1'') \<in> set (uno_por_tienda ?pu)"
    by (simp add: uno_por_tienda_def groupby_def sort_values_def)
  have m: "(fst (''B'', ''u1''), ''u2'') \<in> set ?pu" by simp
  have "snd (''B'', ''u1'') \<le> ''u2''"
    using uno_por_tienda_smallest_link [of ?pu, THEN conjunct2, THEN conjunct2, THEN conjunct2,
        THEN bspec, OF r, THEN conjunct2, THEN spec, THEN mp, OF m] .
  then have le: "''u1'' \<le> ''u2''" by (simp only: snd_conv)
  have m': "(''B'', ''u2'') \<in> set ?pu" by simp
  show ?thesis using e r m' le by (intro conjI)
qed

subsection \<open>Comparison of two store sets\<close>

text \<open>
  C6. For all finite sets A and B of store names, \<^verbatim>\<open>compare\<close> returns the intersection
  as matched, A without B as onlyA and B without A as onlyB, each as an ascending sequence
  without duplicates; matched and onlyA together are disjoint from onlyB, and the three
  together are the union of A and B.
\<close>

theorem compare_partition:
  assumes "finite A" and "finite B"
  shows "set (matched (compare A B)) = A \<inter> B
       \<and> set (onlyA (compare A B)) = A - B
       \<and> set (onlyB (compare A B)) = B - A
       \<and> sorted (matched (compare A B)) \<and> distinct (matched (compare A B))
       \<and> sorted (onlyA (compare A B)) \<and> distinct (onlyA (compare A B))
       \<and> sorted (onlyB (compare A B)) \<and> distinct (onlyB (compare A B))
       \<and> (set (matched (compare A B)) \<union> set (onlyA (compare A B)))
            \<inter> set (onlyB (compare A B)) = {}
       \<and> set (matched (compare A B)) \<union> set (onlyA (compare A B))
            \<union> set (onlyB (compare A B)) = A \<union> B"
proof -
  have m: "set (matched (compare A B)) = A \<inter> B"
    using assms by (simp add: compare_def)
  have a: "set (onlyA (compare A B)) = A - B"
    using assms by (simp add: compare_def)
  have b: "set (onlyB (compare A B)) = B - A"
    using assms by (simp add: compare_def)
  have s: "sorted (matched (compare A B)) \<and> distinct (matched (compare A B))
       \<and> sorted (onlyA (compare A B)) \<and> distinct (onlyA (compare A B))
       \<and> sorted (onlyB (compare A B)) \<and> distinct (onlyB (compare A B))"
    by (simp add: compare_def)
  have d: "(A \<inter> B \<union> (A - B)) \<inter> (B - A) = {}" by blast
  have u: "A \<inter> B \<union> (A - B) \<union> (B - A) = A \<union> B" by blast
  show ?thesis
    unfolding m a b using s d u by simp
qed

theorem compare_partition_witness:
  "finite {''Store A'', ''Store B''} \<and> finite {''Store B'', ''Store C''}
   \<and> compare {''Store A'', ''Store B''} {''Store B'', ''Store C''}
      = \<lparr>matched = [''Store B''], onlyA = [''Store A''], onlyB = [''Store C'']\<rparr>
   \<and> set (matched (compare {''Store A'', ''Store B''} {''Store B'', ''Store C''}))
        \<union> set (onlyA (compare {''Store A'', ''Store B''} {''Store B'', ''Store C''}))
        \<union> set (onlyB (compare {''Store A'', ''Store B''} {''Store B'', ''Store C''}))
      = {''Store A'', ''Store B''} \<union> {''Store B'', ''Store C''}"
proof -
  have fa: "finite {''Store A'', ''Store B''}" and fb: "finite {''Store B'', ''Store C''}"
    by simp_all
  have e: "compare {''Store A'', ''Store B''} {''Store B'', ''Store C''}
      = \<lparr>matched = [''Store B''], onlyA = [''Store A''], onlyB = [''Store C'']\<rparr>"
    by code_simp
  show ?thesis
    using fa fb e compare_partition [OF fa fb] by blast
qed

subsection \<open>URL of a workbook cell\<close>

lemma literal_ci_append:
  "list_all2 ci_char p u \<Longrightarrow> literal_ci p (u @ r) = Some r"
  by (induction p arbitrary: u) (auto simp: list_all2_Cons1)

lemma http_no_s:
  assumes "list_all2 ci_char ''http://'' u"
  shows "literal_ci ''https://'' (u @ r) = None"
proof -
  from assms obtain a b c d e f g where u: "u = [a, b, c, d, e, f, g]"
    and "ci_char CHR '':'' e"
    by (auto simp: list_all2_Cons1)
  then have "\<not> ci_char CHR ''s'' e" by (auto simp: ci_char_def)
  then show ?thesis by (simp add: u)
qed

lemma http_prefix_append:
  "http_like sch \<Longrightarrow> http_prefix (sch @ r) = Some r"
  unfolding http_like_def http_prefix_def
  by (auto simp: literal_ci_append http_no_s split: option.splits)

lemma http_prefix_SomeD:
  "http_prefix r = Some body \<Longrightarrow> \<exists>sch. r = sch @ body \<and> http_like sch"
  unfolding http_prefix_def http_like_def
  by (auto simp: literal_ci_Some_iff split: option.splits)

lemma quoted_url_at_Some_iff:
  "quoted_url_at s = Some u \<longleftrightarrow> quoted_at s [] u"
proof
  assume a: "quoted_url_at s = Some u"
  then obtain r where s: "s = dquote # r"
    by (cases s) (auto simp: quoted_url_at_def split: if_splits)
  from a s obtain body where hp: "http_prefix r = Some body"
    by (auto simp: quoted_url_at_def split: option.splits)
  define run where "run = takeWhile (\<lambda>c. c \<noteq> dquote) body"
  define rest where "rest = dropWhile (\<lambda>c. c \<noteq> dquote) body"
  from a s hp have run: "run \<noteq> []" and rest: "rest \<noteq> []"
    and u: "u = take (length r - length rest) r"
    by (auto simp: quoted_url_at_def Let_def run_def rest_def split: if_splits)
  from hp obtain sch where r: "r = sch @ body" and sch: "http_like sch"
    using http_prefix_SomeD by blast
  have body: "body = run @ rest" by (simp add: run_def rest_def)
  have "hd rest = dquote"
    using rest hd_dropWhile [of "\<lambda>c. c \<noteq> dquote" body] by (simp add: rest_def)
  then obtain post where post: "rest = dquote # post"
    using rest by (cases rest) auto
  have "u = sch @ run" using u r body by simp
  moreover have "dquote \<notin> set run"
    unfolding run_def by (auto dest: set_takeWhileD)
  ultimately have "quoted_url u" using sch run by (auto simp: quoted_url_def)
  moreover have "s = [] @ dquote # u @ dquote # post"
    using s r body post \<open>u = sch @ run\<close> by simp
  ultimately show "quoted_at s [] u" unfolding quoted_at_def by blast
next
  assume "quoted_at s [] u"
  then obtain post sch body where s: "s = dquote # u @ dquote # post"
    and u: "u = sch @ body" and sch: "http_like sch" and b: "body \<noteq> []" "dquote \<notin> set body"
    by (auto simp: quoted_at_def quoted_url_def)
  have hp: "http_prefix (sch @ body @ dquote # post) = Some (body @ dquote # post)"
    by (rule http_prefix_append [OF sch])
  have nb: "x \<noteq> dquote" if "x \<in> set body" for x
    using that b by auto
  have tw: "takeWhile (\<lambda>c. c \<noteq> dquote) (body @ dquote # post) = body"
    using takeWhile_append2 [of body "\<lambda>c. c \<noteq> dquote" "dquote # post"] nb by simp
  have dw: "dropWhile (\<lambda>c. c \<noteq> dquote) (body @ dquote # post) = dquote # post"
    using dropWhile_append2 [of body "\<lambda>c. c \<noteq> dquote" "dquote # post"] nb by simp
  show "quoted_url_at s = Some u"
    using b by (simp add: quoted_url_at_def s u hp tw dw Let_def)
qed

lemma quoted_at_Cons_Cons:
  "quoted_at (c # cs) (p # pre) u \<longleftrightarrow> p = c \<and> quoted_at cs pre u"
  by (auto simp: quoted_at_def)

lemma extraer_None_iff:
  "extraer_url_de_formula s = None \<longleftrightarrow> (\<forall>pre u. \<not> quoted_at s pre u)"
proof (induction s)
  case Nil
  then show ?case by (simp add: quoted_at_def)
next
  case (Cons c cs)
  have "extraer_url_de_formula (c # cs) = None \<longleftrightarrow>
        quoted_url_at (c # cs) = None \<and> extraer_url_de_formula cs = None"
    by (simp split: option.splits)
  also have "\<dots> \<longleftrightarrow> (\<forall>u. \<not> quoted_at (c # cs) [] u) \<and> (\<forall>pre u. \<not> quoted_at cs pre u)"
    using Cons.IH quoted_url_at_Some_iff [of "c # cs"]
    by (metis not_Some_eq)
  also have "\<dots> \<longleftrightarrow> (\<forall>pre u. \<not> quoted_at (c # cs) pre u)"
  proof
    assume h: "(\<forall>u. \<not> quoted_at (c # cs) [] u) \<and> (\<forall>pre u. \<not> quoted_at cs pre u)"
    show "\<forall>pre u. \<not> quoted_at (c # cs) pre u"
    proof (intro allI)
      fix pre u
      show "\<not> quoted_at (c # cs) pre u"
        using h by (cases pre) (simp_all add: quoted_at_Cons_Cons)
    qed
  next
    assume h: "\<forall>pre u. \<not> quoted_at (c # cs) pre u"
    have "\<not> quoted_at cs pre u" for pre u
      using h quoted_at_Cons_Cons [of c cs c pre u] by simp
    with h show "(\<forall>u. \<not> quoted_at (c # cs) [] u) \<and> (\<forall>pre u. \<not> quoted_at cs pre u)"
      by simp
  qed
  finally show ?case .
qed

lemma extraer_Some_first:
  "extraer_url_de_formula s = Some u \<Longrightarrow> first_quoted_url s u"
proof (induction s)
  case Nil
  then show ?case by simp
next
  case (Cons c cs)
  show ?case
  proof (cases "quoted_url_at (c # cs)")
    case (Some u0)
    with Cons.prems have "u0 = u" by simp
    with Some have "quoted_at (c # cs) [] u" by (simp add: quoted_url_at_Some_iff)
    then show ?thesis unfolding first_quoted_url_def by (intro exI [of _ "[]"]) simp
  next
    case None
    with Cons.prems have "extraer_url_de_formula cs = Some u" by simp
    then have "first_quoted_url cs u" by (rule Cons.IH)
    then obtain pre where p: "quoted_at cs pre u"
      and m: "\<And>pre' u'. quoted_at cs pre' u' \<Longrightarrow> length pre \<le> length pre'"
      unfolding first_quoted_url_def by blast
    have n: "\<not> quoted_at (c # cs) [] u'" for u'
      using None quoted_url_at_Some_iff [of "c # cs" u'] by simp
    have "quoted_at (c # cs) (c # pre) u"
      using p by (simp add: quoted_at_Cons_Cons)
    moreover have "length (c # pre) \<le> length pre'" if q: "quoted_at (c # cs) pre' u'" for pre' u'
    proof (cases pre')
      case Nil
      with q n show ?thesis by simp
    next
      case (Cons a pre'')
      with q have "quoted_at cs pre'' u'" by (simp add: quoted_at_Cons_Cons)
      then have "length pre \<le> length pre''" by (rule m)
      with Cons show ?thesis by simp
    qed
    ultimately show ?thesis unfolding first_quoted_url_def by blast
  qed
qed

lemma strip_hd:
  assumes "strip s \<noteq> []"
  shows "hd (strip s) = hd (dropWhile isspace s)"
proof -
  define d where "d = dropWhile isspace s"
  have "d = strip s @ rev (takeWhile isspace (rev d))"
    using rev_dropWhile_takeWhile [of isspace d] by (simp add: strip_def d_def)
  then have "hd d = hd (strip s)"
    using assms by (metis hd_append2)
  then show ?thesis by (simp add: d_def)
qed

lemma is_formula_hd: "is_formula v \<Longrightarrow> v \<noteq> [] \<and> hd v = CHR ''=''"
  by (cases v) (auto simp: is_formula_def startswith_def)

lemma GUID_hd: "GUID_RE_fullmatch s \<Longrightarrow> s \<noteq> [] \<and> is_hex (hd s)"
  by (cases s) (auto simp: GUID_RE_fullmatch_def)

lemma formula_not_GUID:
  assumes "is_formula v"
  shows "\<not> GUID_RE_fullmatch (strip v)"
proof
  assume "GUID_RE_fullmatch (strip v)"
  then have ne: "strip v \<noteq> []" and hex: "is_hex (hd (strip v))"
    using GUID_hd by blast+
  from assms have v: "v \<noteq> []" "hd v = CHR ''=''"
    using is_formula_hd by blast+
  then have "\<not> isspace (hd v)" by (simp add: isspace_def)
  then have "dropWhile isspace v = v" using v by (cases v) auto
  then have "hd (strip v) = CHR ''=''"
    using strip_hd [OF ne] v by simp
  with hex show False by (simp add: is_hex_def)
qed

lemma url_detectada_eq: "url_detectada c = url_por_precedencia c"
proof (cases "hyperlink_target c")
  case (Some t)
  then have "chyperlink c = Some (Hyperlink (Some t))" and "t \<noteq> []"
    by (auto simp: hyperlink_target_def split: option.splits hyperlink.splits if_splits)
  then show ?thesis
    using Some by (simp add: url_detectada_def url_por_precedencia_def not_url_def)
next
  case None
  then have url0: "(case chyperlink c of
                    Some (Hyperlink (Some t)) \<Rightarrow> if t \<noteq> [] then Some t else None
                  | _ \<Rightarrow> None) = None"
    by (auto simp: hyperlink_target_def split: option.splits hyperlink.splits if_splits)
  show ?thesis
  proof (cases "cvalue c")
    case Missing
    then show ?thesis
      using None by (simp add: url_detectada_def url_por_precedencia_def url0 is_str_def)
  next
    case (Scalar b r)
    then show ?thesis
      using None by (simp add: url_detectada_def url_por_precedencia_def url0 is_str_def)
  next
    case (Text v)
    show ?thesis
    proof (cases "is_formula v")
      case True
      then have g: "\<not> GUID_RE_fullmatch (strip v)" by (rule formula_not_GUID)
      from True have "startswith v ''=HIPERVINCULO('' \<or> startswith v ''=HYPERLINK(''"
        by (simp add: is_formula_def)
      then show ?thesis
        using None Text True g
        by (simp add: url_detectada_def url_por_precedencia_def url0 is_str_def not_url_def)
    next
      case False
      then have "\<not> (startswith v ''=HIPERVINCULO('' \<or> startswith v ''=HYPERLINK('')"
        by (simp add: is_formula_def)
      then show ?thesis
        using None Text False
        by (simp add: url_detectada_def url_por_precedencia_def url0 is_str_def not_url_def)
    qed
  qed
qed

text \<open>
  C9. For every row of the workbook extractor the extracted URL follows a fixed
  precedence: the real hyperlink target of the cell if there is one; otherwise, if the
  cell value is a text starting with \<^verbatim>\<open>=HIPERVINCULO(\<close> or \<^verbatim>\<open>=HYPERLINK(\<close>, the first
  quoted http(s) URL inside the formula; otherwise, if the stripped cell value matches
  the GUID pattern, the fixed prefix followed by the stripped value; otherwise the row
  has no URL and contributes no pair. What the formula search returns is the leftmost
  quoted URL of the text, and it returns nothing only when the text has none.
\<close>

theorem url_detectada_precedence:
  "url_detectada c = url_por_precedencia c
   \<and> (url_por_precedencia c = None \<longrightarrow> fila_pares t c = [])
   \<and> (\<forall>u. extraer_url_de_formula s = Some u \<longrightarrow> first_quoted_url s u)
   \<and> (extraer_url_de_formula s = None \<longrightarrow> (\<forall>pre u. \<not> quoted_at s pre u))"
proof -
  have "url_por_precedencia c = None \<longrightarrow> fila_pares t c = []"
    by (simp add: fila_pares_def url_detectada_eq)
  then show ?thesis
    using url_detectada_eq extraer_Some_first extraer_None_iff by blast
qed

theorem url_detectada_precedence_witness:
  "url_detectada \<lparr>cvalue = Text ''=HYPERLINK(\"https://a.b/c\",\"x\")'', chyperlink = None\<rparr>
     = Some ''https://a.b/c''
   \<and> first_quoted_url ''=HYPERLINK(\"https://a.b/c\",\"http://z\")'' ''https://a.b/c''
   \<and> url_detectada \<lparr>cvalue = Text '' 0123abcd-0123-4567-89ab-0123456789AB '',
                      chyperlink = Some (Hyperlink None)\<rparr>
     = Some (URL_PREFIX @ ''0123abcd-0123-4567-89ab-0123456789AB'')
   \<and> url_por_precedencia \<lparr>cvalue = Text ''n/a'', chyperlink = None\<rparr> = None
   \<and> fila_pares (Text ''Store A'') \<lparr>cvalue = Text ''n/a'', chyperlink = None\<rparr> = []"
proof -
  let ?c1 = "\<lparr>cvalue = Text ''=HYPERLINK(\"https://a.b/c\",\"x\")'', chyperlink = None\<rparr>"
  let ?s = "''=HYPERLINK(\"https://a.b/c\",\"http://z\")''"
  let ?c2 = "\<lparr>cvalue = Text '' 0123abcd-0123-4567-89ab-0123456789AB '',
              chyperlink = Some (Hyperlink None)\<rparr>"
  let ?c3 = "\<lparr>cvalue = Text ''n/a'', chyperlink = None\<rparr>"
  have p1: "url_por_precedencia ?c1 = Some ''https://a.b/c''"
    by (simp add: url_por_precedencia_def hyperlink_target_def is_formula_def startswith_def
        quoted_url_at_def http_prefix_def ci_char_def dquote_def)
  have e: "extraer_url_de_formula ?s = Some ''https://a.b/c''"
    by (simp add: quoted_url_at_def http_prefix_def ci_char_def dquote_def)
  have p2: "url_por_precedencia ?c2 = Some (URL_PREFIX @ ''0123abcd-0123-4567-89ab-0123456789AB'')"
    by (simp add: url_por_precedencia_def hyperlink_target_def is_formula_def startswith_def
        strip_def isspace_def GUID_RE_fullmatch_def is_hex_def)
  have p3: "url_por_precedencia ?c3 = None"
    by (simp add: url_por_precedencia_def hyperlink_target_def is_formula_def startswith_def
        strip_def isspace_def GUID_RE_fullmatch_def)
  note t1 = url_detectada_precedence [of ?c1 "Text ''Store A''" ?s]
  note t2 = url_detectada_precedence [of ?c2 "Text ''Store A''" ?s]
  note t3 = url_detectada_precedence [of ?c3 "Text ''Store A''" ?s]
  have "url_detectada ?c1 = Some ''https://a.b/c''"
    using t1 [THEN conjunct1] p1 by (rule trans)
  moreover have "first_quoted_url ?s ''https://a.b/c''"
    using t1 [THEN conjunct2, THEN conjunct2, THEN conjunct1, rule_format, OF e] .
  moreover have "url_detectada ?c2 = Some (URL_PREFIX @ ''0123abcd-0123-4567-89ab-0123456789AB'')"
    using t2 [THEN conjunct1] p2 by (rule trans)
  moreover have "fila_pares (Text ''Store A'') ?c3 = []"
    using t3 [THEN conjunct2, THEN conjunct1, rule_format, OF p3] .
  ultimately show ?thesis using p3 by (intro conjI)
qed

end
